theory Spec2Isabelle
  imports Main
begin

section \<open>Strings\<close>

text \<open>
  A Python \<open>str\<close> is a sequence of Unicode code points, and \<open>len\<close>, slicing and
  \<open>re\<close> count code points. A string is therefore a list of code points (natural numbers),
  not a list of bytes. \<open>ascii\<close> reads an ASCII literal.
\<close>

type_synonym pystr = "nat list"

definition ascii :: "string \<Rightarrow> pystr" where
  "ascii s = map of_char s"

text \<open>\<open>str.replace(old, new)\<close>: every non-overlapping occurrence, from the left. With an
  empty \<open>old\<close> Python puts \<open>new\<close> before every character and at the end.\<close>

fun replace_all :: "pystr \<Rightarrow> pystr \<Rightarrow> pystr \<Rightarrow> pystr" where
  "replace_all old new [] = []"
| "replace_all old new (c # cs) =
     (if take (length old) (c # cs) = old
      then new @ replace_all old new (drop (length old - 1) cs)
      else c # replace_all old new cs)"

definition replace :: "pystr \<Rightarrow> pystr \<Rightarrow> pystr \<Rightarrow> pystr" where
  "replace old new s =
     (if old = [] then new @ concat (map (\<lambda>c. c # new) s) else replace_all old new s)"

text \<open>\<open>str.rstrip('/')\<close>: drop every trailing slash.\<close>

definition rstrip :: "nat \<Rightarrow> pystr \<Rightarrow> pystr" where
  "rstrip ch s = rev (dropWhile (\<lambda>c. c = ch) (rev s))"

text \<open>The decimal digits of a counter, as an f-string formats an \<open>int\<close>.\<close>

fun str_of_nat :: "nat \<Rightarrow> pystr" where
  "str_of_nat n = (if n < 10 then [48 + n] else str_of_nat (n div 10) @ [48 + n mod 10])"

declare str_of_nat.simps [simp del]

section \<open>Constants of the module\<close>

definition MAX_RETRIES :: nat where
  "MAX_RETRIES = 3"

definition VERSION :: pystr where
  "VERSION = ascii ''0.2.0''"

section \<open>Filename sanitization\<close>

text \<open>
  \<open>re.sub(r'[^\w\u4e00-\u9fff\s]', '', name)\<close> on a \<open>str\<close> pattern uses the Unicode
  classes. \<open>\s\<close> is the code points for which \<open>str.isspace\<close> holds, a finite set written
  out here. \<open>\w\<close> is the underscore and the alphanumeric code points; for ASCII these are
  the digits and the letters, and beyond ASCII they come from the Unicode database of the
  interpreter, which is the parameter \<open>uni\<close> of the model.
\<close>

definition is_space :: "nat \<Rightarrow> bool" where
  "is_space c \<longleftrightarrow>
     (9 \<le> c \<and> c \<le> 13) \<or> (28 \<le> c \<and> c \<le> 32) \<or> c = 133 \<or> c = 160 \<or> c = 5760 \<or>
     (8192 \<le> c \<and> c \<le> 8202) \<or> c = 8232 \<or> c = 8233 \<or> c = 8239 \<or> c = 8287 \<or> c = 12288"

definition is_alnum :: "(nat \<Rightarrow> bool) \<Rightarrow> nat \<Rightarrow> bool" where
  "is_alnum uni c \<longleftrightarrow>
     (if c < 128 then (48 \<le> c \<and> c \<le> 57) \<or> (65 \<le> c \<and> c \<le> 90) \<or> (97 \<le> c \<and> c \<le> 122)
      else uni c)"

definition is_word :: "(nat \<Rightarrow> bool) \<Rightarrow> nat \<Rightarrow> bool" where
  "is_word uni c \<longleftrightarrow> is_alnum uni c \<or> c = 95"

definition is_cjk :: "nat \<Rightarrow> bool" where
  "is_cjk c \<longleftrightarrow> 0x4e00 \<le> c \<and> c \<le> 0x9fff"

definition kept :: "(nat \<Rightarrow> bool) \<Rightarrow> nat \<Rightarrow> bool" where
  "kept uni c \<longleftrightarrow> is_word uni c \<or> is_cjk c \<or> is_space c"

definition sanitize_filename :: "(nat \<Rightarrow> bool) \<Rightarrow> pystr \<Rightarrow> pystr" where
  "sanitize_filename uni name =
     (let cleaned = filter (kept uni) name;
          cleaned = map (\<lambda>c. if c = 32 then 95 else c) cleaned
      in if cleaned \<noteq> [] then take 50 cleaned else ascii ''plugin'')"

section \<open>Data model\<close>

text \<open>
  A plugin descriptor is a JSON object. The program reads its \<open>url\<close> with
  \<open>plugin["url"]\<close> and its \<open>name\<close> with \<open>plugin.get("name", url)\<close>, and copies every
  other field along. The descriptor is typed as the data model has it: \<open>url\<close> is a string
  that is always there, \<open>name\<close> is a string that may be missing, and \<open>extra\<close> stands for
  the remaining fields. \<open>plugin.copy()\<close> is the record itself, and
  \<open>d["name"] = v\<close> is the record update.
\<close>

record 'x plugin =
  url :: pystr
  name :: "pystr option"
  extra :: 'x

text \<open>The source configuration: both keys are read with \<open>origins.get(key, [])\<close>, so either
  may be missing; \<open>other_keys\<close> says whether the object has any further key, which decides
  \<open>not origins\<close> together with the two.\<close>

record 'x origins =
  sources :: "pystr list option"
  singles :: "'x plugin list option"
  other_keys :: bool

record config =
  CDN_URL :: pystr
  uni :: "nat \<Rightarrow> bool"

definition USE_CDN :: "config \<Rightarrow> bool" where
  "USE_CDN cfg \<longleftrightarrow> CDN_URL cfg \<noteq> []"

section \<open>Subscription resolver\<close>

text \<open>
  One attempt of \<open>fetch_sub_plugins\<close> either raises inside the \<open>try\<close> (the request, the
  status check, the JSON parse) or yields the parsed object, of which only the \<open>plugins\<close>
  key matters: \<open>SubBody None\<close> is an object without that key. The HTTP client is the
  function from the attempt number to what that attempt gives.
\<close>

datatype 'x sub_response = SubError | SubBody "'x plugin list option"

text \<open>The loop \<open>for retry in range(MAX_RETRIES)\<close>; the last argument counts the iterations
  left. A loop that ends without \<open>return\<close> makes the Python function return \<open>None\<close>.\<close>

fun fetch_sub_loop :: "(nat \<Rightarrow> 'x sub_response) \<Rightarrow> nat \<Rightarrow> nat \<Rightarrow> 'x plugin list option" where
  "fetch_sub_loop resp retry 0 = None"
| "fetch_sub_loop resp retry (Suc left) =
     (case resp retry of
        SubBody data \<Rightarrow> Some (case data of Some ps \<Rightarrow> ps | None \<Rightarrow> [])
      | SubError \<Rightarrow>
          if retry = MAX_RETRIES - 1 then Some []
          else fetch_sub_loop resp (Suc retry) left)"

definition fetch_sub_plugins :: "pystr \<Rightarrow> (nat \<Rightarrow> 'x sub_response) \<Rightarrow> 'x plugin list option" where
  "fetch_sub_plugins u resp = fetch_sub_loop resp 0 MAX_RETRIES"

section \<open>Plugin collector\<close>

text \<open>\<open>sub i\<close> is what the client answers to the attempts made for the source at
  position \<open>i\<close>. \<open>if plugins:\<close> skips both \<open>None\<close> and the empty list.\<close>

fun collect_sources :: "(nat \<Rightarrow> nat \<Rightarrow> 'x sub_response) \<Rightarrow> nat \<Rightarrow> pystr list \<Rightarrow> 'x plugin list" where
  "collect_sources sub i [] = []"
| "collect_sources sub i (source_url # rest) =
     (case fetch_sub_plugins source_url (sub i) of
        Some plugins \<Rightarrow> (if plugins \<noteq> [] then plugins else [])
      | None \<Rightarrow> []) @ collect_sources sub (Suc i) rest"

definition get_sources :: "'x origins \<Rightarrow> pystr list" where
  "get_sources orig = (case sources orig of Some s \<Rightarrow> s | None \<Rightarrow> [])"

definition get_singles :: "'x origins \<Rightarrow> 'x plugin list" where
  "get_singles orig = (case singles orig of Some s \<Rightarrow> s | None \<Rightarrow> [])"

definition collect_plugins :: "(nat \<Rightarrow> nat \<Rightarrow> 'x sub_response) \<Rightarrow> 'x origins \<Rightarrow> 'x plugin list" where
  "collect_plugins sub orig =
     (let all_plugins = [];
          all_plugins = (if get_sources orig \<noteq> []
                         then all_plugins @ collect_sources sub 0 (get_sources orig)
                         else all_plugins);
          all_plugins = (if get_singles orig \<noteq> []
                         then all_plugins @ get_singles orig
                         else all_plugins)
      in all_plugins)"

section \<open>Plugin processor\<close>

text \<open>
  \<open>fetch_plugins\<close> starts one coroutine per descriptor and awaits them together, with
  \<open>seen_urls\<close> empty, \<open>name_count\<close> empty and no task returned (\<open>init_state\<close>). The
  scheduler is cooperative and single-threaded, so a coroutine runs without interruption
  between two \<open>await\<close>s. \<open>download_and_process_plugin\<close> has two such stretches:

  \<^item> from its start to the first \<open>await client.get\<close>: the test and update of \<open>seen_urls\<close>.
    The tasks are started in the order of the input list, so these stretches run in input
    order (\<open>start_tasks\<close>);
  \<^item> from the return of \<open>client.get\<close> to the \<open>return\<close> or to \<open>await asyncio.sleep\<close>: one
    iteration of the retry loop, with the update of \<open>name_count\<close> and the file write
    (\<open>run_attempt\<close>). In which order the iterations of different tasks run is decided by the
    network; it is an input of the model, the schedule.

  What one iteration meets is an \<open>attempt\<close>: the request or the status check raises
  (\<open>NetFail\<close>), or the response arrives and \<open>write_text\<close> raises (\<open>WriteFail\<close>, after the name
  was resolved), or the response arrives with a body and the file is written.
\<close>

datatype attempt = NetFail | WriteFail | Fetched pystr

type_synonym 'x result = "bool \<times> 'x plugin \<times> 'x plugin"

record 'x pstate =
  name_count :: "pystr \<rightharpoonup> nat"
  tries :: "nat \<Rightarrow> nat"
  finished :: "nat \<rightharpoonup> 'x result"
  js_files :: "(pystr \<times> pystr) list"

text \<open>The first stretch of every task, in input order: a descriptor whose url was seen
  returns \<open>(False, plugin, plugin.copy())\<close> at once; otherwise its url is added.\<close>

fun start_tasks ::
  "'x plugin list \<Rightarrow> nat \<Rightarrow> pystr set \<Rightarrow> (nat \<rightharpoonup> 'x result) \<Rightarrow> pystr set \<times> (nat \<rightharpoonup> 'x result)" where
  "start_tasks [] i seen_urls fin = (seen_urls, fin)"
| "start_tasks (plugin # rest) i seen_urls fin =
     (if url plugin \<in> seen_urls
      then start_tasks rest (Suc i) seen_urls (fin(i \<mapsto> (False, plugin, plugin)))
      else start_tasks rest (Suc i) (insert (url plugin) seen_urls) fin)"

definition display_name :: "'x plugin \<Rightarrow> pystr" where
  "display_name plugin = (case name plugin of Some n \<Rightarrow> n | None \<Rightarrow> url plugin)"

text \<open>The two fixed substitutions; the first term is the three code points U+7F51, U+6613,
  U+4E91.\<close>

definition substitute :: "pystr \<Rightarrow> pystr" where
  "substitute n = replace (ascii ''QQ'') (ascii ''T'') (replace [0x7f51, 0x6613, 0x4e91] (ascii ''W'') n)"

definition resolve_name :: "(pystr \<rightharpoonup> nat) \<Rightarrow> pystr \<Rightarrow> (pystr \<rightharpoonup> nat) \<times> pystr" where
  "resolve_name nc n =
     (case nc n of
        Some c \<Rightarrow> (nc(n \<mapsto> c + 1), n @ ascii ''_'' @ str_of_nat (c + 1))
      | None \<Rightarrow> (nc(n \<mapsto> 0), n))"

definition make_filename :: "config \<Rightarrow> pystr \<Rightarrow> pystr" where
  "make_filename cfg plugin_name = sanitize_filename (uni cfg) plugin_name @ ascii ''.js''"

definition mirror_url :: "config \<Rightarrow> pystr \<Rightarrow> pystr" where
  "mirror_url cfg filename =
     (if USE_CDN cfg then (rstrip 47 (CDN_URL cfg) @ ascii ''/'') @ filename
      else ascii ''js/'' @ filename)"

text \<open>The \<open>except\<close> branch: the last retry returns the failure, an earlier one sleeps and
  goes to the next iteration.\<close>

definition on_exception :: "'x plugin \<Rightarrow> nat \<Rightarrow> nat \<Rightarrow> 'x pstate \<Rightarrow> 'x pstate" where
  "on_exception plugin i retry st =
     (if retry = MAX_RETRIES - 1
      then st\<lparr>finished := (finished st)(i \<mapsto> (False, plugin, plugin))\<rparr>
      else st\<lparr>tries := (tries st)(i := retry + 1)\<rparr>)"

definition run_attempt ::
  "config \<Rightarrow> (nat \<Rightarrow> nat \<Rightarrow> attempt) \<Rightarrow> 'x plugin \<Rightarrow> nat \<Rightarrow> 'x pstate \<Rightarrow> 'x pstate" where
  "run_attempt cfg net plugin i st =
     (let retry = tries st i in
      case net i retry of
        NetFail \<Rightarrow> on_exception plugin i retry st
      | WriteFail \<Rightarrow>
          (let (nc, plugin_name) = resolve_name (name_count st) (substitute (display_name plugin))
           in on_exception plugin i retry (st\<lparr>name_count := nc\<rparr>))
      | Fetched body \<Rightarrow>
          (let (nc, plugin_name) = resolve_name (name_count st) (substitute (display_name plugin));
               filename = make_filename cfg plugin_name;
               new_plugin = plugin\<lparr>name := Some plugin_name, url := mirror_url cfg filename\<rparr>;
               original_plugin = plugin\<lparr>name := Some plugin_name\<rparr>
           in st\<lparr>name_count := nc,
                 js_files := js_files st @ [(filename, body)],
                 finished := (finished st)(i \<mapsto> (True, new_plugin, original_plugin))\<rparr>))"

text \<open>One event of the schedule: the task \<open>i\<close> runs its next iteration, if it is a task
  that has not returned yet.\<close>

definition step ::
  "config \<Rightarrow> (nat \<Rightarrow> nat \<Rightarrow> attempt) \<Rightarrow> 'x plugin list \<Rightarrow> 'x pstate \<Rightarrow> nat \<Rightarrow> 'x pstate" where
  "step cfg net plugins st i =
     (if i < length plugins \<and> finished st i = None
      then run_attempt cfg net (plugins ! i) i st
      else st)"

text \<open>\<open>asyncio.gather\<close> returns when every task has returned. The schedule \<open>sched\<close> gives
  the order of the iterations; the tasks it leaves unfinished are then run in turn, which
  every task survives at most \<open>MAX_RETRIES\<close> times.\<close>

definition init_state :: "'x plugin list \<Rightarrow> 'x pstate" where
  "init_state plugins =
     \<lparr>name_count = Map.empty, tries = (\<lambda>_. 0),
      finished = snd (start_tasks plugins 0 {} Map.empty), js_files = []\<rparr>"

definition run_tasks ::
  "config \<Rightarrow> (nat \<Rightarrow> nat \<Rightarrow> attempt) \<Rightarrow> nat list \<Rightarrow> 'x plugin list \<Rightarrow> 'x pstate" where
  "run_tasks cfg net sched plugins =
     foldl (step cfg net plugins) (init_state plugins)
       (sched @ concat (replicate MAX_RETRIES [0..<length plugins]))"

text \<open>The results of \<open>gather\<close>, in the order of the tasks.\<close>

definition gather :: "'x pstate \<Rightarrow> nat \<Rightarrow> 'x result list" where
  "gather st n = map (\<lambda>i. the (finished st i)) [0..<n]"

fun split_results ::
  "'x result list \<Rightarrow> 'x plugin list \<Rightarrow> 'x plugin list \<Rightarrow> 'x plugin list \<times> 'x plugin list" where
  "split_results [] valid_plugins original_plugins = (valid_plugins, original_plugins)"
| "split_results ((success, new_plugin, original_plugin) # rest) valid_plugins original_plugins =
     (if success
      then split_results rest (valid_plugins @ [new_plugin]) (original_plugins @ [original_plugin])
      else split_results rest valid_plugins (original_plugins @ [original_plugin]))"

definition fetch_plugins ::
  "config \<Rightarrow> (nat \<Rightarrow> nat \<Rightarrow> attempt) \<Rightarrow> nat list \<Rightarrow> 'x plugin list \<Rightarrow> 'x plugin list \<times> 'x plugin list" where
  "fetch_plugins cfg net sched plugins =
     split_results (gather (run_tasks cfg net sched plugins) (length plugins)) [] []"

definition written_files ::
  "config \<Rightarrow> (nat \<Rightarrow> nat \<Rightarrow> attempt) \<Rightarrow> nat list \<Rightarrow> 'x plugin list \<Rightarrow> (pystr \<times> pystr) list" where
  "written_files cfg net sched plugins = js_files (run_tasks cfg net sched plugins)"

section \<open>The run\<close>

text \<open>
  \<open>main\<close> reads the world through the operating system and the network. The \<open>world\<close>
  record holds what they answer in one run: whether the \<open>js\<close> directory existed, whether
  removing and creating it succeed, what \<open>load_origins\<close> finds in the source file
  (\<open>None\<close> when opening, reading or parsing raises), the answers of the subscription
  sources, the attempts and the schedule of the downloads, and whether each manifest can
  be written. The result is what the run leaves behind: the log lines of \<open>main\<close>,
  \<open>load_origins\<close> and \<open>save_plugin_list\<close> (those of the collector and of the fetchers are
  left out), the payload files written, and the state of the two manifests.
\<close>

datatype level = INFO | WARNING | ERROR | SUCCESS

datatype target = DIST_JSON_PATH | PLUGINS_JSON_PATH

datatype message =
    TaskStarted | CdnSetting bool | CdnAddress pystr
  | JsDirDeleted | JsDirCreated | JsDirResetFailed
  | ReadOriginsFailed
  | NoPluginsCollected | DownloadStarted nat | NoValidPlugins
  | Verified nat | OriginalsCollected nat
  | FileSaved target | FileSaveFailed target | TaskDone nat

datatype 'x manifest = Untouched | Written pystr "'x plugin list" | WriteFailed

record 'x world =
  env_cfg :: config
  js_dir_exists :: bool
  rmtree_ok :: bool
  mkdir_ok :: bool
  origins_file :: "'x origins option"
  env_sub :: "nat \<Rightarrow> nat \<Rightarrow> 'x sub_response"
  env_net :: "nat \<Rightarrow> nat \<Rightarrow> attempt"
  env_sched :: "nat list"
  save_ok :: "target \<Rightarrow> bool"

record 'x run =
  log :: "(level \<times> message) list"
  payloads :: "(pystr \<times> pystr) list"
  all_json :: "'x manifest"
  plugins_json :: "'x manifest"

definition load_origins :: "'x origins option \<Rightarrow> 'x origins \<times> (level \<times> message) list" where
  "load_origins file =
     (case file of
        Some orig \<Rightarrow> (orig, [])
      | None \<Rightarrow> (\<lparr>sources = Some [], singles = Some [], other_keys = False\<rparr>,
                 [(ERROR, ReadOriginsFailed)]))"

text \<open>\<open>not origins\<close> holds of the empty dictionary only.\<close>

definition truthy :: "'x origins \<Rightarrow> bool" where
  "truthy orig \<longleftrightarrow> sources orig \<noteq> None \<or> singles orig \<noteq> None \<or> other_keys orig"

definition save_plugin_list ::
  "bool \<Rightarrow> target \<Rightarrow> pystr \<Rightarrow> 'x plugin list \<Rightarrow> 'x manifest \<times> (level \<times> message) list \<times> bool" where
  "save_plugin_list ok file_path desc plugins =
     (if ok then (Written desc plugins, [(SUCCESS, FileSaved file_path)], True)
      else (WriteFailed, [(ERROR, FileSaveFailed file_path)], False))"

definition stopped :: "(level \<times> message) list \<Rightarrow> (pystr \<times> pystr) list \<Rightarrow> 'x run" where
  "stopped lg files = \<lparr>log = lg, payloads = files, all_json = Untouched, plugins_json = Untouched\<rparr>"

definition save_results ::
  "'x world \<Rightarrow> (level \<times> message) list \<Rightarrow> (pystr \<times> pystr) list \<Rightarrow>
     'x plugin list \<Rightarrow> 'x plugin list \<Rightarrow> 'x run" where
  "save_results w lg files valid_plugins original_plugins =
     (case save_plugin_list (save_ok w DIST_JSON_PATH) DIST_JSON_PATH VERSION valid_plugins of
        (m1, lg1, all_success) \<Rightarrow>
     (case save_plugin_list (save_ok w PLUGINS_JSON_PATH) PLUGINS_JSON_PATH VERSION original_plugins of
        (m2, lg2, plugins_success) \<Rightarrow>
       \<lparr>log = lg @ lg1 @ lg2 @
               (if all_success \<and> plugins_success then [(SUCCESS, TaskDone (length valid_plugins))]
                else []),
        payloads = files, all_json = m1, plugins_json = m2\<rparr>))"

definition process_plugins ::
  "'x world \<Rightarrow> (level \<times> message) list \<Rightarrow> 'x plugin list \<Rightarrow> 'x run" where
  "process_plugins w lg all_plugins =
     (case fetch_plugins (env_cfg w) (env_net w) (env_sched w) all_plugins of
        (valid_plugins, original_plugins) \<Rightarrow>
          if valid_plugins = []
          then stopped (lg @ [(INFO, DownloadStarted (length all_plugins)), (ERROR, NoValidPlugins)])
                 (written_files (env_cfg w) (env_net w) (env_sched w) all_plugins)
          else save_results w
                 (lg @ [(INFO, DownloadStarted (length all_plugins)),
                        (INFO, Verified (length valid_plugins)),
                        (INFO, OriginalsCollected (length original_plugins))])
                 (written_files (env_cfg w) (env_net w) (env_sched w) all_plugins)
                 valid_plugins original_plugins)"

definition after_reset :: "'x world \<Rightarrow> (level \<times> message) list \<Rightarrow> 'x run" where
  "after_reset w lg =
     (case load_origins (origins_file w) of
        (orig, lg1) \<Rightarrow>
          if \<not> truthy orig then stopped (lg @ lg1) []
          else if collect_plugins (env_sub w) orig = []
          then stopped (lg @ lg1 @ [(WARNING, NoPluginsCollected)]) []
          else process_plugins w (lg @ lg1) (collect_plugins (env_sub w) orig))"

definition main :: "'x world \<Rightarrow> 'x run" where
  "main w =
     (if js_dir_exists w \<and> \<not> rmtree_ok w
      then stopped ([(INFO, TaskStarted), (INFO, CdnSetting (USE_CDN (env_cfg w)))] @
                    (if USE_CDN (env_cfg w) then [(INFO, CdnAddress (CDN_URL (env_cfg w)))] else []) @
                    [(ERROR, JsDirResetFailed)]) []
      else if \<not> mkdir_ok w
      then stopped ([(INFO, TaskStarted), (INFO, CdnSetting (USE_CDN (env_cfg w)))] @
                    (if USE_CDN (env_cfg w) then [(INFO, CdnAddress (CDN_URL (env_cfg w)))] else []) @
                    (if js_dir_exists w then [(INFO, JsDirDeleted)] else []) @
                    [(ERROR, JsDirResetFailed)]) []
      else after_reset w
             ([(INFO, TaskStarted), (INFO, CdnSetting (USE_CDN (env_cfg w)))] @
              (if USE_CDN (env_cfg w) then [(INFO, CdnAddress (CDN_URL (env_cfg w)))] else []) @
              (if js_dir_exists w then [(INFO, JsDirDeleted)] else []) @
              [(INFO, JsDirCreated)]))"

section \<open>Predicates used in the statements\<close>

text \<open>
  \<open>task_ok cfg p r\<close>: \<open>r\<close> is what a task returns for the descriptor \<open>p\<close> after a
  successful iteration: the resolved name is the substituted display name or that name
  with a counter suffix, both output records carry it, and only the processed one has its
  url rewritten. \<open>task_inv\<close> is the invariant of one task during the run.
\<close>

definition task_ok :: "config \<Rightarrow> 'x plugin \<Rightarrow> 'x result \<Rightarrow> bool" where
  "task_ok cfg p r \<longleftrightarrow>
     (\<exists>pn. (pn = substitute (display_name p) \<or>
            (\<exists>c. pn = substitute (display_name p) @ ascii ''_'' @ str_of_nat (Suc c))) \<and>
           r = (True, p\<lparr>name := Some pn, url := mirror_url cfg (make_filename cfg pn)\<rparr>,
                p\<lparr>name := Some pn\<rparr>))"

definition task_inv ::
  "config \<Rightarrow> (nat \<Rightarrow> nat \<Rightarrow> attempt) \<Rightarrow> 'x plugin list \<Rightarrow> nat \<Rightarrow> 'x pstate \<Rightarrow> bool" where
  "task_inv cfg net ps i st \<longleftrightarrow>
     (finished st i = None \<longrightarrow>
        tries st i < MAX_RETRIES \<and> (\<forall>k<tries st i. \<forall>b. net i k \<noteq> Fetched b) \<and>
        finished (init_state ps) i = None) \<and>
     (\<forall>r. finished st i = Some r \<longrightarrow>
        (r = (False, ps ! i, ps ! i) \<and>
           (finished (init_state ps) i \<noteq> None \<or> (\<forall>k<MAX_RETRIES. \<forall>b. net i k \<noteq> Fetched b))) \<or>
        (task_ok cfg (ps ! i) r \<and> finished (init_state ps) i = None \<and>
           (\<exists>k<MAX_RETRIES. \<exists>b. net i k = Fetched b)))"

section \<open>Properties of the subscription resolver and the collector\<close>

lemma fetch_sub_plugins_exhausted:
  assumes "\<forall>k<MAX_RETRIES. resp k = SubError"
  shows "fetch_sub_plugins u resp = Some []"
  using assms by (simp add: fetch_sub_plugins_def MAX_RETRIES_def numeral_3_eq_3)

lemma fetch_sub_loop_no_key:
  assumes "resp (retry + k) = SubBody None" and "\<forall>j<k. resp (retry + j) = SubError"
    and "retry + k < MAX_RETRIES" and "retry + left = MAX_RETRIES"
  shows "fetch_sub_loop resp retry left = Some []"
  using assms
proof (induction k arbitrary: retry left)
  case 0
  then obtain l where "left = Suc l" by (cases left) auto
  with 0 show ?case by simp
next
  case (Suc k)
  from Suc.prems obtain l where l: "left = Suc l" by (cases left) auto
  have first: "resp retry = SubError" using Suc.prems(2) by (metis add.right_neutral zero_less_Suc)
  have "fetch_sub_loop resp (Suc retry) l = Some []"
  proof (rule Suc.IH)
    show "resp (Suc retry + k) = SubBody None" using Suc.prems(1) by simp
    show "\<forall>j<k. resp (Suc retry + j) = SubError"
    proof (intro allI impI)
      fix j assume "j < k"
      then have "resp (retry + Suc j) = SubError" using Suc.prems(2) by blast
      then show "resp (Suc retry + j) = SubError" by simp
    qed
    show "Suc retry + k < MAX_RETRIES" using Suc.prems(3) by simp
    show "Suc retry + l = MAX_RETRIES" using Suc.prems(4) l by simp
  qed
  moreover have "retry \<noteq> MAX_RETRIES - 1" using Suc.prems(3) by simp
  ultimately show ?case using first l by simp
qed

lemma fetch_sub_plugins_no_key:
  assumes "k < MAX_RETRIES" and "\<forall>j<k. resp j = SubError" and "resp k = SubBody None"
  shows "fetch_sub_plugins u resp = Some []"
  unfolding fetch_sub_plugins_def
  using fetch_sub_loop_no_key [of resp 0 k MAX_RETRIES] assms by simp

lemma fetch_sub_loop_returns:
  "retry + left = MAX_RETRIES \<Longrightarrow> 0 < left \<Longrightarrow> \<exists>ps. fetch_sub_loop resp retry left = Some ps"
proof (induction left arbitrary: retry)
  case 0
  then show ?case by simp
next
  case (Suc left)
  show ?case
  proof (cases "resp retry")
    case SubError
    show ?thesis
    proof (cases "left = 0")
      case True
      then have "retry = MAX_RETRIES - 1" using Suc.prems by simp
      then show ?thesis using SubError by simp
    next
      case False
      then have "\<exists>ps. fetch_sub_loop resp (Suc retry) left = Some ps"
        using Suc.IH [of "Suc retry"] Suc.prems by simp
      then show ?thesis using SubError by auto
    qed
  next
    case (SubBody data)
    then show ?thesis by simp
  qed
qed

lemma fetch_sub_plugins_returns: "\<exists>ps. fetch_sub_plugins u resp = Some ps"
  unfolding fetch_sub_plugins_def
  by (rule fetch_sub_loop_returns) (simp_all add: MAX_RETRIES_def)

lemma collect_sources_append:
  "collect_sources sub i (us @ vs) =
     collect_sources sub i us @ collect_sources sub (i + length us) vs"
  by (induction us arbitrary: i) auto

text \<open>
  Claim C6. A subscription source whose attempts all fail, or whose first answer is a JSON
  object without the \<open>plugins\<close> key, makes the resolver return the empty list; the
  collector then goes on: its result is what the sources before and after that one give,
  followed by the configured singles.
\<close>

theorem C6_bad_source_is_skipped:
  assumes bad: "(\<forall>k<MAX_RETRIES. sub (length us) k = SubError) \<or>
                (\<exists>k<MAX_RETRIES. (\<forall>j<k. sub (length us) j = SubError) \<and>
                                  sub (length us) k = SubBody None)"
    and src: "sources orig = Some (us @ u # vs)"
  shows "fetch_sub_plugins u (sub (length us)) = Some [] \<and>
         collect_plugins sub orig =
           collect_sources sub 0 us @ collect_sources sub (Suc (length us)) vs @ get_singles orig"
proof -
  have empty: "fetch_sub_plugins u (sub (length us)) = Some []"
    using bad fetch_sub_plugins_exhausted [of "sub (length us)" u]
      fetch_sub_plugins_no_key [of _ "sub (length us)" u] by blast
  have "collect_sources sub 0 (us @ u # vs) =
          collect_sources sub 0 us @ collect_sources sub (Suc (length us)) vs"
    using empty by (simp add: collect_sources_append)
  then have "collect_plugins sub orig =
          collect_sources sub 0 us @ collect_sources sub (Suc (length us)) vs @ get_singles orig"
    using src by (simp add: collect_plugins_def get_sources_def Let_def)
  with empty show ?thesis by simp
qed

theorem C6_bad_source_is_skipped_witness:
  "fetch_sub_plugins (ascii ''http://s/bad'') (\<lambda>k. SubError :: unit sub_response) = Some [] \<and>
   collect_plugins (\<lambda>i k. if i = 1 then SubError
                           else SubBody (Some [\<lparr>url = ascii ''u'', name = None, extra = ()\<rparr>]))
     \<lparr>sources = Some [ascii ''http://s/a'', ascii ''http://s/bad'', ascii ''http://s/c''],
      singles = Some [\<lparr>url = ascii ''v'', name = Some (ascii ''Foo''), extra = ()\<rparr>],
      other_keys = False\<rparr> =
     [\<lparr>url = ascii ''u'', name = None, extra = ()\<rparr>,
      \<lparr>url = ascii ''u'', name = None, extra = ()\<rparr>,
      \<lparr>url = ascii ''v'', name = Some (ascii ''Foo''), extra = ()\<rparr>]"
  using C6_bad_source_is_skipped
    [of "\<lambda>i k. if i = 1 then SubError
                else SubBody (Some [\<lparr>url = ascii ''u'', name = None, extra = ()\<rparr>])"
        "[ascii ''http://s/a'']"
        "\<lparr>sources = Some [ascii ''http://s/a'', ascii ''http://s/bad'', ascii ''http://s/c''],
          singles = Some [\<lparr>url = ascii ''v'', name = Some (ascii ''Foo''), extra = ()\<rparr>],
          other_keys = False\<rparr>"
        "ascii ''http://s/bad''" "[ascii ''http://s/c'']"]
  by (simp add: fetch_sub_plugins_def MAX_RETRIES_def numeral_3_eq_3 get_singles_def)

section \<open>The state of one task during the run\<close>


lemma start_tasks_finished:
  "snd (start_tasks ps k seen fin) j =
     (if k \<le> j \<and> j < k + length ps \<and> url (ps ! (j - k)) \<in> seen \<union> url ` set (take (j - k) ps)
      then Some (False, ps ! (j - k), ps ! (j - k)) else fin j)"
proof (induction ps arbitrary: k seen fin)
  case Nil
  then show ?case by auto
next
  case (Cons p ps)
  show ?case
  proof (cases "j = k")
    case True
    then show ?thesis using Cons.IH by simp
  next
    case False
    show ?thesis
    proof (cases "k < j")
      case True
      then obtain d where d: "j = Suc k + d" by (metis add_Suc less_iff_Suc_add)
      then have "j - k = Suc d" and "j - Suc k = d" by simp_all
      then show ?thesis using Cons.IH d by (auto simp: take_Suc_Cons)
    next
      case False
      with \<open>j \<noteq> k\<close> have "j < k" by simp
      then show ?thesis using Cons.IH by simp
    qed
  qed
qed

lemma init_finished:
  "finished (init_state ps) i =
     (if i < length ps \<and> url (ps ! i) \<in> url ` set (take i ps) then Some (False, ps ! i, ps ! i) else None)"
  by (simp add: init_state_def start_tasks_finished)

lemma step_other:
  "j \<noteq> i \<Longrightarrow> tries (step cfg net ps st j) i = tries st i \<and> finished (step cfg net ps st j) i = finished st i"
  by (auto simp: step_def run_attempt_def on_exception_def Let_def split: attempt.splits prod.splits)


lemma resolve_name_cases:
  "snd (resolve_name nc n) = n \<or> (\<exists>c. snd (resolve_name nc n) = n @ ascii ''_'' @ str_of_nat (Suc c))"
  by (auto simp: resolve_name_def split: option.splits)

lemma on_exception_self:
  "finished (on_exception p i retry st) i =
     (if retry = MAX_RETRIES - 1 then Some (False, p, p) else finished st i)"
  "tries (on_exception p i retry st) i = (if retry = MAX_RETRIES - 1 then tries st i else retry + 1)"
  by (simp_all add: on_exception_def)

lemma run_attempt_fail:
  assumes "\<forall>b. net i (tries st i) \<noteq> Fetched b"
  shows "finished (run_attempt cfg net p i st) i =
           (if tries st i = MAX_RETRIES - 1 then Some (False, p, p) else finished st i)"
    and "tries (run_attempt cfg net p i st) i =
           (if tries st i = MAX_RETRIES - 1 then tries st i else tries st i + 1)"
  using assms
  by (auto simp: run_attempt_def on_exception_def Let_def split: attempt.splits prod.splits)

lemma run_attempt_fetched:
  assumes "net i (tries st i) = Fetched b"
  shows "\<exists>r. finished (run_attempt cfg net p i st) i = Some r \<and> task_ok cfg p r"
proof -
  obtain nc pn where r: "resolve_name (name_count st) (substitute (display_name p)) = (nc, pn)"
    by (cases "resolve_name (name_count st) (substitute (display_name p))")
  have "pn = substitute (display_name p) \<or>
        (\<exists>c. pn = substitute (display_name p) @ ascii ''_'' @ str_of_nat (Suc c))"
    using resolve_name_cases [of "name_count st" "substitute (display_name p)"] r by simp
  then have "task_ok cfg p (True, p\<lparr>name := Some pn, url := mirror_url cfg (make_filename cfg pn)\<rparr>,
                p\<lparr>name := Some pn\<rparr>)"
    unfolding task_ok_def by blast
  moreover have "finished (run_attempt cfg net p i st) i =
      Some (True, p\<lparr>name := Some pn, url := mirror_url cfg (make_filename cfg pn)\<rparr>,
                p\<lparr>name := Some pn\<rparr>)"
    using assms r by (simp add: run_attempt_def Let_def)
  ultimately show ?thesis by simp
qed

lemma init_tries: "tries (init_state ps) i = 0"
  by (simp add: init_state_def)

lemma task_inv_init: "task_inv cfg net ps i (init_state ps)"
  by (auto simp: task_inv_def init_finished init_tries MAX_RETRIES_def)

lemma task_inv_step:
  assumes inv: "task_inv cfg net ps i st"
  shows "task_inv cfg net ps i (step cfg net ps st j)"
proof (cases "j = i \<and> i < length ps \<and> finished st i = None")
  case False
  have "tries (step cfg net ps st j) i = tries st i \<and>
        finished (step cfg net ps st j) i = finished st i"
  proof (cases "j = i")
    case True
    with False have "step cfg net ps st j = st" by (auto simp: step_def)
    then show ?thesis by simp
  next
    case False
    then show ?thesis by (rule step_other)
  qed
  then show ?thesis using inv by (simp add: task_inv_def)
next
  case True
  then have st': "step cfg net ps st j = run_attempt cfg net (ps ! i) i st"
    by (simp add: step_def)
  from True inv have t: "tries st i < MAX_RETRIES"
    and nf: "\<forall>k<tries st i. \<forall>b. net i k \<noteq> Fetched b"
    and nd: "finished (init_state ps) i = None"
    by (simp_all add: task_inv_def)
  show ?thesis
  proof (cases "\<exists>b. net i (tries st i) = Fetched b")
    case True
    then obtain b where b: "net i (tries st i) = Fetched b" by blast
    from b run_attempt_fetched [where net=net and i=i and st=st and b=b and cfg=cfg and p="ps ! i"]
    obtain r where "finished (run_attempt cfg net (ps ! i) i st) i = Some r"
      and "task_ok cfg (ps ! i) r" by blast
    then show ?thesis using st' nd t b by (auto simp: task_inv_def)
  next
    case False
    then have nb: "\<forall>b. net i (tries st i) \<noteq> Fetched b" by simp
    have ra: "finished (run_attempt cfg net (ps ! i) i st) i =
           (if tries st i = MAX_RETRIES - 1 then Some (False, ps ! i, ps ! i) else finished st i)"
         "tries (run_attempt cfg net (ps ! i) i st) i =
           (if tries st i = MAX_RETRIES - 1 then tries st i else tries st i + 1)"
      using nb run_attempt_fail [where net=net and i=i and st=st and cfg=cfg and p="ps ! i"]
      by simp_all
    show ?thesis
    proof (cases "tries st i = MAX_RETRIES - 1")
      case True
      have "\<forall>k<MAX_RETRIES. \<forall>b. net i k \<noteq> Fetched b"
      proof (intro allI impI)
        fix k b assume "k < MAX_RETRIES"
        then have "k < tries st i \<or> k = tries st i" using True by auto
        then show "net i k \<noteq> Fetched b" using nf nb by auto
      qed
      then show ?thesis using st' ra True by (simp add: task_inv_def)
    next
      case False
      have "\<forall>k<tries st i + 1. \<forall>b. net i k \<noteq> Fetched b"
      proof (intro allI impI)
        fix k b assume "k < tries st i + 1"
        then have "k < tries st i \<or> k = tries st i" by auto
        then show "net i k \<noteq> Fetched b" using nf nb by auto
      qed
      moreover have "tries st i + 1 < MAX_RETRIES" using t False by simp
      ultimately show ?thesis using st' ra False \<open>j = i \<and> i < length ps \<and> finished st i = None\<close> nd
        by (simp add: task_inv_def)
    qed
  qed
qed

lemma task_inv_foldl:
  "task_inv cfg net ps i st \<Longrightarrow> task_inv cfg net ps i (foldl (step cfg net ps) st xs)"
  by (induction xs arbitrary: st) (simp_all add: task_inv_step)


lemma step_keeps_progress:
  assumes "finished st i \<noteq> None \<or> c \<le> tries st i"
  shows "finished (step cfg net ps st j) i \<noteq> None \<or> c \<le> tries (step cfg net ps st j) i"
proof (cases "j = i")
  case False
  then show ?thesis using assms step_other [of j i cfg net ps st] by simp
next
  case True
  show ?thesis
  proof (cases "i < length ps \<and> finished st i = None")
    case False
    then have "step cfg net ps st j = st" using True by (auto simp: step_def)
    then show ?thesis using assms by simp
  next
    case True
    then show ?thesis using assms \<open>j = i\<close>
      by (auto simp: step_def run_attempt_def on_exception_def Let_def
               split: attempt.splits prod.splits)
  qed
qed

lemma step_makes_progress:
  assumes "i < length ps" and "finished st i \<noteq> None \<or> c \<le> tries st i"
  shows "finished (step cfg net ps st i) i \<noteq> None \<or> Suc c \<le> tries (step cfg net ps st i) i"
proof (cases "finished st i = None")
  case False
  then have "step cfg net ps st i = st" by (auto simp: step_def)
  then show ?thesis using False by simp
next
  case True
  then show ?thesis using assms
    by (auto simp: step_def run_attempt_def on_exception_def Let_def
             split: attempt.splits prod.splits)
qed

lemma foldl_keeps_progress:
  "finished st i \<noteq> None \<or> c \<le> tries st i \<Longrightarrow>
   finished (foldl (step cfg net ps) st xs) i \<noteq> None \<or> c \<le> tries (foldl (step cfg net ps) st xs) i"
proof (induction xs arbitrary: st)
  case Nil
  then show ?case by simp
next
  case (Cons x xs)
  have "finished (step cfg net ps st x) i \<noteq> None \<or> c \<le> tries (step cfg net ps st x) i"
    using Cons.prems by (rule step_keeps_progress)
  then show ?case using Cons.IH by simp
qed

lemma foldl_makes_progress:
  "i < length ps \<Longrightarrow> i \<in> set xs \<Longrightarrow> finished st i \<noteq> None \<or> c \<le> tries st i \<Longrightarrow>
   finished (foldl (step cfg net ps) st xs) i \<noteq> None \<or>
   Suc c \<le> tries (foldl (step cfg net ps) st xs) i"
proof (induction xs arbitrary: st)
  case Nil
  then show ?case by simp
next
  case (Cons x xs)
  show ?case
  proof (cases "x = i")
    case True
    have "finished (step cfg net ps st i) i \<noteq> None \<or> Suc c \<le> tries (step cfg net ps st i) i"
      using Cons.prems(1,3) by (rule step_makes_progress)
    then have "finished (foldl (step cfg net ps) (step cfg net ps st i) xs) i \<noteq> None \<or>
               Suc c \<le> tries (foldl (step cfg net ps) (step cfg net ps st i) xs) i"
      by (rule foldl_keeps_progress)
    then show ?thesis using True by simp
  next
    case False
    then have "i \<in> set xs" using Cons.prems(2) by simp
    moreover have "finished (step cfg net ps st x) i \<noteq> None \<or> c \<le> tries (step cfg net ps st x) i"
      using Cons.prems(3) by (rule step_keeps_progress)
    ultimately show ?thesis using Cons.IH Cons.prems(1) by simp
  qed
qed

lemma rounds_make_progress:
  "i < length ps \<Longrightarrow>
   finished (foldl (step cfg net ps) st (concat (replicate m [0..<length ps]))) i \<noteq> None \<or>
   m \<le> tries (foldl (step cfg net ps) st (concat (replicate m [0..<length ps]))) i"
proof (induction m arbitrary: st)
  case 0
  then show ?case by simp
next
  case (Suc m)
  have "replicate (Suc m) [0..<length ps] = replicate m [0..<length ps] @ [[0..<length ps]]"
    by (simp add: replicate_append_same)
  then have eq: "foldl (step cfg net ps) st (concat (replicate (Suc m) [0..<length ps])) =
      foldl (step cfg net ps)
        (foldl (step cfg net ps) st (concat (replicate m [0..<length ps]))) [0..<length ps]"
    by simp
  have "i \<in> set [0..<length ps]" using Suc.prems by simp
  then show ?case unfolding eq using Suc.IH [OF Suc.prems] Suc.prems
    by (rule foldl_makes_progress [rotated])
qed

lemma run_tasks_inv: "task_inv cfg net ps i (run_tasks cfg net sched ps)"
  unfolding run_tasks_def by (rule task_inv_foldl) (rule task_inv_init)

lemma run_tasks_finished:
  assumes "i < length ps"
  shows "finished (run_tasks cfg net sched ps) i \<noteq> None"
proof
  assume none: "finished (run_tasks cfg net sched ps) i = None"
  have "finished (run_tasks cfg net sched ps) i \<noteq> None \<or>
        MAX_RETRIES \<le> tries (run_tasks cfg net sched ps) i"
    unfolding run_tasks_def foldl_append using assms by (rule rounds_make_progress)
  moreover have "tries (run_tasks cfg net sched ps) i < MAX_RETRIES"
    using run_tasks_inv [of cfg net ps i sched] none by (simp add: task_inv_def)
  ultimately show False using none by simp
qed

lemma run_tasks_result:
  assumes "i < length ps"
  shows "\<exists>r. finished (run_tasks cfg net sched ps) i = Some r \<and>
    (if url (ps ! i) \<in> url ` set (take i ps) \<or> (\<forall>k<MAX_RETRIES. \<forall>b. net i k \<noteq> Fetched b)
     then r = (False, ps ! i, ps ! i)
     else task_ok cfg (ps ! i) r)"
proof -
  from run_tasks_finished [OF assms] obtain r
    where r: "finished (run_tasks cfg net sched ps) i = Some r" by blast
  have ok: "task_ok cfg (ps ! i) r \<Longrightarrow> fst r" by (auto simp: task_ok_def)
  from run_tasks_inv [of cfg net ps i sched] r
  have "(r = (False, ps ! i, ps ! i) \<and>
           (finished (init_state ps) i \<noteq> None \<or> (\<forall>k<MAX_RETRIES. \<forall>b. net i k \<noteq> Fetched b))) \<or>
        (task_ok cfg (ps ! i) r \<and> finished (init_state ps) i = None \<and>
           (\<exists>k<MAX_RETRIES. \<exists>b. net i k = Fetched b))"
    by (simp add: task_inv_def)
  then show ?thesis using r assms by (auto simp: init_finished split: if_splits)
qed

lemma gather_nth: "i < n \<Longrightarrow> gather st n ! i = the (finished st i)"
  by (simp add: gather_def)

lemma length_gather: "length (gather st n) = n"
  by (simp add: gather_def)

lemma split_results_eq:
  "split_results rs v orig = (v @ map (fst \<circ> snd) (filter fst rs), orig @ map (snd \<circ> snd) rs)"
  by (induction rs v orig rule: split_results.induct) auto


section \<open>The two output lists\<close>


lemma fetch_plugins_eq:
  "fetch_plugins cfg net sched ps =
     (map (fst \<circ> snd) (filter fst (gather (run_tasks cfg net sched ps) (length ps))),
      map (snd \<circ> snd) (gather (run_tasks cfg net sched ps) (length ps)))"
  by (simp add: fetch_plugins_def split_results_eq)

lemma length_filter_all: "length (filter P xs) = length xs \<longleftrightarrow> (\<forall>x\<in>set xs. P x)"
proof (induction xs)
  case Nil
  then show ?case by simp
next
  case (Cons x xs)
  show ?case using length_filter_le [of P xs] Cons.IH
    by (auto simp del: length_filter_le)
qed

lemma distinct_urls_iff:
  "distinct (map url ps) \<longleftrightarrow> (\<forall>i<length ps. url (ps ! i) \<notin> url ` set (take i ps))"
proof (induction ps rule: rev_induct)
  case Nil
  then show ?case by simp
next
  case (snoc p ps)
  have "(\<forall>i<length (ps @ [p]). url ((ps @ [p]) ! i) \<notin> url ` set (take i (ps @ [p]))) \<longleftrightarrow>
        (\<forall>i<length ps. url (ps ! i) \<notin> url ` set (take i ps)) \<and> url p \<notin> url ` set ps"
    by (auto simp: less_Suc_eq nth_append)
  then show ?case using snoc.IH by auto
qed

lemma task_succeeds_iff:
  assumes "i < length ps"
  shows "fst (gather (run_tasks cfg net sched ps) (length ps) ! i) \<longleftrightarrow>
         url (ps ! i) \<notin> url ` set (take i ps) \<and> (\<exists>k<MAX_RETRIES. \<exists>b. net i k = Fetched b)"
proof -
  from run_tasks_result [OF assms, of cfg net sched] obtain r
    where r: "finished (run_tasks cfg net sched ps) i = Some r"
      and c: "if url (ps ! i) \<in> url ` set (take i ps) \<or> (\<forall>k<MAX_RETRIES. \<forall>b. net i k \<noteq> Fetched b)
              then r = (False, ps ! i, ps ! i) else task_ok cfg (ps ! i) r"
    by blast
  have "gather (run_tasks cfg net sched ps) (length ps) ! i = r"
    using assms r by (simp add: gather_nth)
  then show ?thesis using c by (auto simp: task_ok_def split: if_splits)
qed

text \<open>
  Claim C1. \<open>fetch_plugins\<close> returns one OriginalPlugin record per input descriptor, and at
  most as many ProcessedPlugin records; it returns as many exactly when no two descriptors
  share a url and every descriptor has an attempt among its \<open>MAX_RETRIES\<close> that fetches
  and stores the payload.
\<close>

theorem C1_output_lengths:
  "length (snd (fetch_plugins cfg net sched plugins)) = length plugins \<and>
   length (fst (fetch_plugins cfg net sched plugins)) \<le> length plugins \<and>
   (length (fst (fetch_plugins cfg net sched plugins)) = length plugins \<longleftrightarrow>
      distinct (map url plugins) \<and>
      (\<forall>i<length plugins. \<exists>k<MAX_RETRIES. \<exists>b. net i k = Fetched b))"
proof -
  let ?rs = "gather (run_tasks cfg net sched plugins) (length plugins)"
  have len: "length ?rs = length plugins" by (rule length_gather)
  have a: "length (snd (fetch_plugins cfg net sched plugins)) = length plugins"
    by (simp add: fetch_plugins_eq len)
  have b: "length (fst (fetch_plugins cfg net sched plugins)) \<le> length plugins"
    using length_filter_le [of fst ?rs] by (simp add: fetch_plugins_eq len)
  have "length (fst (fetch_plugins cfg net sched plugins)) = length plugins \<longleftrightarrow>
        (\<forall>r\<in>set ?rs. fst r)"
    using length_filter_all [of fst ?rs] by (simp add: fetch_plugins_eq len)
  also have "\<dots> \<longleftrightarrow> (\<forall>i<length plugins. fst (?rs ! i))"
    using len by (metis in_set_conv_nth)
  also have "\<dots> \<longleftrightarrow> (\<forall>i<length plugins. url (plugins ! i) \<notin> url ` set (take i plugins) \<and>
                        (\<exists>k<MAX_RETRIES. \<exists>b. net i k = Fetched b))"
    using task_succeeds_iff [of _ plugins cfg net sched] by blast
  also have "\<dots> \<longleftrightarrow> distinct (map url plugins) \<and>
                   (\<forall>i<length plugins. \<exists>k<MAX_RETRIES. \<exists>b. net i k = Fetched b)"
    unfolding distinct_urls_iff by blast
  finally show ?thesis using a b by blast
qed

theorem C1_output_lengths_witness:
  "length (fst (fetch_plugins \<lparr>CDN_URL = [], uni = (\<lambda>_. False)\<rparr> (\<lambda>i k. Fetched (ascii ''x'')) []
      [\<lparr>url = ascii ''a'', name = Some (ascii ''Foo''), extra = ()\<rparr>,
       \<lparr>url = ascii ''b'', name = Some (ascii ''Foo''), extra = ()\<rparr>])) = 2 \<and>
   length (snd (fetch_plugins \<lparr>CDN_URL = [], uni = (\<lambda>_. False)\<rparr> (\<lambda>i k. Fetched (ascii ''x'')) []
      [\<lparr>url = ascii ''a'', name = Some (ascii ''Foo''), extra = ()\<rparr>,
       \<lparr>url = ascii ''b'', name = Some (ascii ''Foo''), extra = ()\<rparr>])) = 2"
proof -
  let ?ps = "[\<lparr>url = ascii ''a'', name = Some (ascii ''Foo''), extra = ()\<rparr>,
              \<lparr>url = ascii ''b'', name = Some (ascii ''Foo''), extra = ()\<rparr>]"
  let ?net = "\<lambda>(i::nat) (k::nat). Fetched (ascii ''x'')"
  have d: "distinct (map url ?ps)" by (simp add: ascii_def)
  have f: "\<forall>i<length ?ps. \<exists>k<MAX_RETRIES. \<exists>b. ?net i k = Fetched b"
    by (auto simp: MAX_RETRIES_def intro: exI [of _ 0])
  have l: "length ?ps = 2" by simp
  have "length (fst (fetch_plugins \<lparr>CDN_URL = [], uni = (\<lambda>_. False)\<rparr> ?net [] ?ps)) = length ?ps \<and>
        length (snd (fetch_plugins \<lparr>CDN_URL = [], uni = (\<lambda>_. False)\<rparr> ?net [] ?ps)) = length ?ps"
    using C1_output_lengths [of "\<lparr>CDN_URL = [], uni = (\<lambda>_. False)\<rparr>" ?net "[]" ?ps] d f
    by blast
  then show ?thesis unfolding l .
qed


end
